theory Spec2Isabelle
  imports Complex_Main
begin

section \<open>Python values used by \<open>nest/experiment/parser/netperf.py\<close>\<close>

text \<open>
  Text is a \<open>string\<close>: one \<open>char\<close> per code point, which covers the code points below 256.
  Among those the decimal digits of the regular-expression class \<open>\d\<close> are exactly
  \<open>0\<close> .. \<open>9\<close>, and the white space of \<open>str.split()\<close> is the set listed in \<open>is_space\<close>.
\<close>

datatype error =
    KeyError string
  | AttributeError string
  | IndexError
  | ValueError
  | TypeError
  | OverflowError
  | UnicodeDecodeError
  | OSError

subsection \<open>Ordered dictionaries\<close>

text \<open>
  A Python \<open>dict\<close> keeps its keys in insertion order; assigning to a key that is present
  replaces the value in place, assigning to a new key appends it.
\<close>

type_synonym ('k, 'v) dict = "('k \<times> 'v) list"

fun dict_set :: "'k \<Rightarrow> 'v \<Rightarrow> ('k, 'v) dict \<Rightarrow> ('k, 'v) dict" where
  "dict_set k v [] = [(k, v)]"
| "dict_set k v ((k', v') # d) =
     (if k' = k then (k, v) # d else (k', v') # dict_set k v d)"

definition dict_get :: "('k, 'v) dict \<Rightarrow> 'k \<Rightarrow> 'v option" where
  "dict_get d k = map_of d k"

definition dict_values :: "('k, 'v) dict \<Rightarrow> 'v list" where
  "dict_values d = map snd d"

subsection \<open>\<open>str.join\<close>, \<open>str.split\<close>, \<open>str.format\<close> of an integer\<close>

fun str_join :: "string \<Rightarrow> string list \<Rightarrow> string" where
  "str_join sep [] = []"
| "str_join sep [x] = x"
| "str_join sep (x # y # ys) = x @ sep @ str_join sep (y # ys)"

definition is_space :: "char \<Rightarrow> bool" where
  "is_space c = (c \<in> set [CHR '' '', CHR 0x09, CHR 0x0A, CHR 0x0B, CHR 0x0C, CHR 0x0D,
                           CHR 0x1C, CHR 0x1D, CHR 0x1E, CHR 0x1F, CHR 0x85, CHR 0xA0])"

fun split_ws :: "string \<Rightarrow> string \<Rightarrow> string list" where
  "split_ws cur [] = (if cur = [] then [] else [cur])"
| "split_ws cur (c # cs) =
     (if is_space c then (if cur = [] then split_ws [] cs else cur # split_ws [] cs)
      else split_ws (cur @ [c]) cs)"

definition str_split :: "string \<Rightarrow> string list" where
  "str_split s = split_ws [] s"

definition digit_char :: "nat \<Rightarrow> char" where
  "digit_char d = ''0123456789'' ! (d mod 10)"

function str_nat :: "nat \<Rightarrow> string" where
  "str_nat n = (if n < 10 then [digit_char n] else str_nat (n div 10) @ [digit_char (n mod 10)])"
  by pat_completeness auto
termination
  by (relation "measure id") auto

definition str_int :: "int \<Rightarrow> string" where
  "str_int i = (if i < 0 then CHR ''-'' # str_nat (nat (- i)) else str_nat (nat i))"

section \<open>Option sets\<close>

definition RUNTIME :: int where
  "RUNTIME = 10"

text \<open>\<open>INTERVAL = 0.2\<close>; \<open>'{}'.format(0.2)\<close> is the text \<open>0.2\<close>.\<close>

definition INTERVAL_str :: string where
  "INTERVAL_str = ''0.2''"

definition DEFAULT_NETPERF_OPTIONS :: "(string, string) dict" where
  "DEFAULT_NETPERF_OPTIONS =
     [(''banner'', ''-P 0''),
      (''ipv4'', ''-4''),
      (''testname'', ''-t TCP_STREAM''),
      (''fill_file'', ''-F /dev/urandom''),
      (''testlen'', ''-l '' @ str_int RUNTIME),
      (''intervel'', ''-D -'' @ INTERVAL_str)]"

definition NETPERF_TCP_OPTIONS :: "(string, string) dict" where
  "NETPERF_TCP_OPTIONS =
     [(''cong_algo'', ''-K cubic''),
      (''stats'', ''-k THROUGHPUT'')]"

definition NETPERF_UDP_OPTIONS :: "(string, string) dict" where
  "NETPERF_UDP_OPTIONS =
     [(''routing'', ''-R 1''),
      (''stats'', ''-k THROUGHPUT'')]"

section \<open>Command building (\<open>run_netperf\<close>, up to the assignment of \<open>cmd\<close>)\<close>

text \<open>
  \<open>kwargs\<close> maps a keyword to the text \<open>'{}'.format\<close> renders its value as; a keyword that
  was not passed raises \<open>KeyError\<close>. \<open>run_time\<close> is an integer, as the docstring says.
\<close>

type_synonym kwargs = "string \<rightharpoonup> string"

definition kwargs_get :: "kwargs \<Rightarrow> string \<Rightarrow> error + string" where
  "kwargs_get kw k = (case kw k of None \<Rightarrow> Inl (KeyError k) | Some v \<Rightarrow> Inr v)"

text \<open>The branch on \<open>options['testname']\<close>: \<open>None\<close> stays when neither test matches.\<close>

definition select_test_options ::
  "(string, string) dict \<Rightarrow> kwargs \<Rightarrow> error + (string, string) dict option" where
  "select_test_options options kw =
     (if dict_get options ''testname'' = Some ''-t TCP_STREAM'' then
        (case kwargs_get kw ''cong_algo'' of
           Inl e \<Rightarrow> Inl e
         | Inr algo \<Rightarrow> Inr (Some (dict_set ''cong_alg'' (''-K '' @ algo) NETPERF_TCP_OPTIONS)))
      else if dict_get options ''testname'' = Some ''-t UDP_STREAM'' then
        Inr (Some NETPERF_UDP_OPTIONS)
      else Inr None)"

definition netperf_cmd :: "string \<Rightarrow> string \<Rightarrow> int \<Rightarrow> kwargs \<Rightarrow> error + string" where
  "netperf_cmd ns_name destination_ip run_time kw =
     (let options = dict_set ''testlen'' (''-l '' @ str_int run_time) DEFAULT_NETPERF_OPTIONS in
      case kwargs_get kw ''testname'' of
        Inl e \<Rightarrow> Inl e
      | Inr testname \<Rightarrow>
         (let options = dict_set ''testname'' (''-t '' @ testname) options in
          case select_test_options options kw of
            Inl e \<Rightarrow> Inl e
          | Inr test_options \<Rightarrow>
             (let options_string = str_join '' '' (dict_values options) in
              case test_options of
                None \<Rightarrow> Inl (AttributeError ''values'')
              | Some topts \<Rightarrow>
                 (let test_options_string = str_join '' '' (dict_values topts) in
                  Inr (''ip netns exec '' @ ns_name @ '' netperf '' @ options_string
                       @ '' -H '' @ destination_ip @ '' -- '' @ test_options_string)))))"

section \<open>Process runner\<close>

text \<open>
  What the program does to the outside is recorded, in order, in a log of events that every
  effectful function takes and returns extended. The child processes are the environment:
  \<open>env argv\<close> is \<open>LaunchError e\<close> when \<open>subprocess.Popen\<close> raises \<open>e\<close> for \<open>argv\<close>;
  otherwise the child starts, and what it has written to its standard output when it exits
  is either bytes that \<open>decode()\<close> rejects (\<open>Undecodable\<close>) or the bytes of the text \<open>out\<close>
  (\<open>Output out\<close>). \<open>Communicate\<close> is \<open>proc.communicate()\<close>, which returns when the child has
  exited; \<open>stdout.decode()\<close> comes after it and raises \<open>UnicodeDecodeError\<close> on the former.
\<close>

datatype pyfloat = Finite rat | Infinity

datatype event =
    Sleep int
  | Popen "string list"
  | Communicate
  | LockAcquire
  | AddResult string "(pyfloat, pyfloat) dict"
  | LockRelease

type_synonym log = "event list"

datatype child = LaunchError error | Undecodable | Output string

type_synonym environment = "string list \<Rightarrow> child"

definition run_test_commands ::
  "environment \<Rightarrow> string \<Rightarrow> bool \<Rightarrow> log \<Rightarrow> (error + string option) \<times> log" where
  "run_test_commands env cmd block w =
     (let argv = str_split cmd in
      case env argv of
        LaunchError e \<Rightarrow> (Inl e, w @ [Popen argv])
      | Undecodable \<Rightarrow>
          if block then (Inl UnicodeDecodeError, w @ [Popen argv, Communicate])
          else (Inr None, w @ [Popen argv])
      | Output out \<Rightarrow>
          if block then (Inr (Some out), w @ [Popen argv, Communicate])
          else (Inr None, w @ [Popen argv]))"

text \<open>An environment for the examples: every child starts and prints nothing.\<close>

definition quiet_child :: environment where
  "quiet_child argv = Output []"

definition run_netserver :: "environment \<Rightarrow> string \<Rightarrow> log \<Rightarrow> (error + unit) \<times> log" where
  "run_netserver env ns_name w =
     (case run_test_commands env (''ip netns exec '' @ ns_name @ '' netserver'') False w of
        (Inl e, w') \<Rightarrow> (Inl e, w')
      | (Inr _, w') \<Rightarrow> (Inr (), w'))"

section \<open>The regular expressions of \<open>parse_stats\<close>\<close>

text \<open>
  The patterns of \<open>parse_stats\<close> are sequences of two kinds of item: a literal character
  and \<open>\d+\<close>. \<open>match_here p s\<close> is \<open>re.match\<close> of such a sequence at the start of \<open>s\<close>,
  returning the text after the match: \<open>\d+\<close> is greedy, it first takes every digit there is
  and gives digits back one at a time, down to one, while the rest of the pattern fails.
\<close>

datatype re_item = Lit char | Digits

type_synonym pattern = "re_item list"

definition is_digit :: "char \<Rightarrow> bool" where
  "is_digit c = (c \<in> set ''0123456789'')"

fun try_digits :: "(string \<Rightarrow> string option) \<Rightarrow> string \<Rightarrow> nat \<Rightarrow> string option" where
  "try_digits k s 0 = None"
| "try_digits k s (Suc n) =
     (case k (drop (Suc n) s) of Some r \<Rightarrow> Some r | None \<Rightarrow> try_digits k s n)"

fun match_here :: "pattern \<Rightarrow> string \<Rightarrow> string option" where
  "match_here [] s = Some s"
| "match_here (Lit c # p) s =
     (case s of [] \<Rightarrow> None | x # xs \<Rightarrow> if x = c then match_here p xs else None)"
| "match_here (Digits # p) s =
     try_digits (match_here p) s (length (takeWhile is_digit s))"

text \<open>
  \<open>re.findall\<close> for a pattern without groups: the matched texts, leftmost first, the search
  resuming where the last match ended (one character further after an empty match).
\<close>

function findall :: "pattern \<Rightarrow> string \<Rightarrow> string list" where
  "findall p [] = (case match_here p [] of None \<Rightarrow> [] | Some r \<Rightarrow> [[]])"
| "findall p (c # cs) =
     (case match_here p (c # cs) of
        None \<Rightarrow> findall p cs
      | Some r \<Rightarrow>
          if length r < length (c # cs)
          then take (length (c # cs) - length r) (c # cs) # findall p r
          else [] # findall p cs)"
  by pat_completeness auto
termination
  by (relation "measure (\<lambda>(p, s). length s)") auto

text \<open>\<open>re.sub(pattern, '', s)\<close>: every match is deleted, the other characters are kept.\<close>

function re_sub_empty :: "pattern \<Rightarrow> string \<Rightarrow> string" where
  "re_sub_empty p [] = []"
| "re_sub_empty p (c # cs) =
     (case match_here p (c # cs) of
        None \<Rightarrow> c # re_sub_empty p cs
      | Some r \<Rightarrow>
          if length r < length (c # cs) then re_sub_empty p r
          else c # re_sub_empty p cs)"
  by pat_completeness auto
termination
  by (relation "measure (\<lambda>(p, s). length s)") auto

definition lits :: "string \<Rightarrow> pattern" where
  "lits s = map Lit s"

text \<open>\<^verbatim>\<open>r'NETPERF_INTERIM_RESULT\[\d+]=\d+\.\d+'\<close>\<close>

definition throughput_pattern :: pattern where
  "throughput_pattern =
     lits ''NETPERF_INTERIM_RESULT['' @ [Digits] @ lits '']='' @ [Digits, Lit CHR ''.'', Digits]"

text \<open>\<^verbatim>\<open>r'NETPERF_INTERIM_RESULT\[\d+]='\<close>\<close>

definition extract_throughput_pattern :: pattern where
  "extract_throughput_pattern = lits ''NETPERF_INTERIM_RESULT['' @ [Digits] @ lits '']=''"

text \<open>\<^verbatim>\<open>r'NETPERF_ENDING\[\d+]=\d+\.\d+'\<close>\<close>

definition timestamp_pattern :: pattern where
  "timestamp_pattern =
     lits ''NETPERF_ENDING['' @ [Digits] @ lits '']='' @ [Digits, Lit CHR ''.'', Digits]"

text \<open>\<^verbatim>\<open>r'NETPERF_ENDING\[\d+]='\<close>\<close>

definition extract_interval_pattern :: pattern where
  "extract_interval_pattern = lits ''NETPERF_ENDING['' @ [Digits] @ lits '']=''"

section \<open>\<open>float\<close> of a decimal text\<close>

text \<open>
  A Python float is an IEEE 754 double. The values \<open>float\<close> produces here are not negative and
  not NaN, so a float is its exact value, a rational, or \<open>inf\<close>; two floats are equal, as
  dictionary keys too, when they are the same value.

  \<open>float_of_decimal n k\<close> is the double nearest to \<open>n / 10 ^ k\<close>, ties going to the even
  significand: 53 bits in a binade \<open>2 ^ e\<close> with \<open>-1022 \<le> e \<le> 1023\<close>, the spacing of
  \<open>e = -1022\<close> below it, \<open>inf\<close> from \<open>2 ^ 1024\<close> on.
\<close>

definition digit_val :: "char \<Rightarrow> int" where
  "digit_val c = of_char c - 48"

definition int_of_digits :: "string \<Rightarrow> int" where
  "int_of_digits s = foldl (\<lambda>n c. 10 * n + digit_val c) 0 s"

definition pow2 :: "int \<Rightarrow> rat" where
  "pow2 e = (if 0 \<le> e then 2 ^ nat e else 1 / 2 ^ nat (- e))"

text \<open>The number of binary digits of \<open>n\<close>.\<close>

function bitlen :: "int \<Rightarrow> int" where
  "bitlen n = (if n \<le> 0 then 0 else 1 + bitlen (n div 2))"
  by pat_completeness auto
termination
  by (relation "measure nat") auto

text \<open>\<open>binade n k\<close> is the \<open>e\<close> with \<open>2 ^ e \<le> n / 10 ^ k < 2 ^ (e + 1)\<close>, for \<open>0 < n\<close>.\<close>

definition binade :: "int \<Rightarrow> nat \<Rightarrow> int" where
  "binade n k =
     (let c = bitlen n - bitlen (10 ^ k);
          reaches = (if 0 \<le> c then 10 ^ k * 2 ^ nat c \<le> n else 10 ^ k \<le> n * 2 ^ nat (- c))
      in if reaches then c else c - 1)"

definition round_half_even :: "int \<Rightarrow> int \<Rightarrow> int" where
  "round_half_even num den =
     (let q = num div den; r = num mod den
      in if 2 * r < den then q
         else if den < 2 * r then q + 1
         else if even q then q else q + 1)"

definition float_of_decimal :: "int \<Rightarrow> nat \<Rightarrow> pyfloat" where
  "float_of_decimal n k =
     (if n = 0 then Finite 0
      else
        let e = binade n k in
        if 1024 \<le> e then Infinity
        else
          let s = max e (- 1022) - 52;
              m = (if 0 \<le> s then round_half_even n (10 ^ k * 2 ^ nat s)
                   else round_half_even (n * 2 ^ nat (- s)) (10 ^ k));
              v = of_int m * pow2 s
          in if pow2 1024 \<le> v then Infinity else Finite v)"

text \<open>
  \<open>py_float\<close> is \<open>float\<close> on the texts of the form digits, dot, digits. On every other text
  the model answers \<open>ValueError\<close>; \<open>float\<close> accepts further forms, and no other text reaches
  it from \<open>parse_stats\<close> (lemmas \<open>throughputs_total\<close> and \<open>timestamps_total\<close> below).
\<close>

definition py_float :: "string \<Rightarrow> error + pyfloat" where
  "py_float s =
     (let ip = takeWhile is_digit s in
      case dropWhile is_digit s of
        [] \<Rightarrow> Inl ValueError
      | c # fp \<Rightarrow>
          if c = CHR ''.'' \<and> ip \<noteq> [] \<and> fp \<noteq> [] \<and> list_all is_digit fp
          then Inr (float_of_decimal (int_of_digits (ip @ fp)) (length fp))
          else Inl ValueError)"

section \<open>\<open>parse_stats\<close>\<close>

text \<open>
  The list comprehension \<open>[float(re.sub(pattern, '', stat)) for stat in stats]\<close>: the first
  conversion that raises ends it.
\<close>

fun floats_of :: "pattern \<Rightarrow> string list \<Rightarrow> error + pyfloat list" where
  "floats_of ep [] = Inr []"
| "floats_of ep (stat # stats) =
     (case py_float (re_sub_empty ep stat) of
        Inl e \<Rightarrow> Inl e
      | Inr x \<Rightarrow> (case floats_of ep stats of Inl e \<Rightarrow> Inl e | Inr xs \<Rightarrow> Inr (x # xs)))"

definition throughputs :: "string \<Rightarrow> error + pyfloat list" where
  "throughputs raw_stats =
     floats_of extract_throughput_pattern (findall throughput_pattern raw_stats)"

definition timestamps :: "string \<Rightarrow> error + pyfloat list" where
  "timestamps raw_stats =
     floats_of extract_interval_pattern (findall timestamp_pattern raw_stats)"

text \<open>
  The loop \<open>for i in range(len(throughputs)): stats_dict[timestamps[i]] = throughputs[i]\<close>,
  from index \<open>i\<close> on; \<open>timestamps[i]\<close> raises \<open>IndexError\<close> past the end of \<open>timestamps\<close>.
\<close>

function stats_loop ::
  "nat \<Rightarrow> pyfloat list \<Rightarrow> pyfloat list \<Rightarrow> (pyfloat, pyfloat) dict
   \<Rightarrow> error + (pyfloat, pyfloat) dict" where
  "stats_loop i thr ts stats_dict =
     (if i < length thr then
        (if i < length ts then stats_loop (Suc i) thr ts (dict_set (ts ! i) (thr ! i) stats_dict)
         else Inl IndexError)
      else Inr stats_dict)"
  by pat_completeness auto
termination
  by (relation "measure (\<lambda>(i, thr, ts, d). length thr - i)") auto

text \<open>The part of \<open>parse_stats\<close> that computes \<open>stats_dict\<close>.\<close>

definition parse_dict :: "string \<Rightarrow> error + (pyfloat, pyfloat) dict" where
  "parse_dict raw_stats =
     (case throughputs raw_stats of
        Inl e \<Rightarrow> Inl e
      | Inr thr \<Rightarrow>
         (case timestamps raw_stats of
            Inl e \<Rightarrow> Inl e
          | Inr ts \<Rightarrow> stats_loop 0 thr ts []))"

text \<open>
  \<open>NetperfResults.add_result\<close> and the lock belong to the caller's side: the calls are
  recorded as events, \<open>AddResult\<close> with the namespace and the dictionary it is given.
\<close>

definition parse_stats :: "string \<Rightarrow> string \<Rightarrow> log \<Rightarrow> (error + unit) \<times> log" where
  "parse_stats raw_stats ns_name w =
     (case parse_dict raw_stats of
        Inl e \<Rightarrow> (Inl e, w)
      | Inr stats_dict \<Rightarrow> (Inr (), w @ [LockAcquire, AddResult ns_name stats_dict, LockRelease]))"

section \<open>\<open>run_netperf\<close>\<close>

text \<open>
  \<open>time.sleep(secs)\<close> for an integer \<open>secs\<close>: the length is first converted to a signed
  64-bit count of nanoseconds, which raises \<open>OverflowError\<close> when \<open>secs\<close> is beyond
  9223372036 in either direction; a negative length then raises \<open>ValueError\<close>; otherwise
  the caller is suspended for \<open>secs\<close> seconds, the event \<open>Sleep secs\<close>.
\<close>

definition max_sleep_seconds :: int where
  "max_sleep_seconds = 9223372036"

definition time_sleep :: "int \<Rightarrow> log \<Rightarrow> (error + unit) \<times> log" where
  "time_sleep secs w =
     (if secs < - max_sleep_seconds \<or> max_sleep_seconds < secs then (Inl OverflowError, w)
      else if secs < 0 then (Inl ValueError, w)
      else (Inr (), w @ [Sleep secs]))"

text \<open>
  After the command is built: \<open>time.sleep(start_time)\<close> when \<open>start_time\<close> is not 0, the
  blocking run of the command, and \<open>parse_stats\<close> on its output.
\<close>

definition run_and_parse ::
  "environment \<Rightarrow> string \<Rightarrow> string \<Rightarrow> log \<Rightarrow> (error + unit) \<times> log" where
  "run_and_parse env cmd ns_name w =
     (case run_test_commands env cmd True w of
        (Inl e, w') \<Rightarrow> (Inl e, w')
      | (Inr None, w') \<Rightarrow> (Inl TypeError, w')
      | (Inr (Some raw_stats), w') \<Rightarrow> parse_stats raw_stats ns_name w')"

definition run_netperf ::
  "environment \<Rightarrow> string \<Rightarrow> string \<Rightarrow> int \<Rightarrow> int \<Rightarrow> kwargs \<Rightarrow> log \<Rightarrow> (error + unit) \<times> log" where
  "run_netperf env ns_name destination_ip start_time run_time kw w =
     (case netperf_cmd ns_name destination_ip run_time kw of
        Inl e \<Rightarrow> (Inl e, w)
      | Inr cmd \<Rightarrow>
          if start_time \<noteq> 0 then
            (case time_sleep start_time w of
               (Inl e, w') \<Rightarrow> (Inl e, w')
             | (Inr _, w') \<Rightarrow> run_and_parse env cmd ns_name w')
          else run_and_parse env cmd ns_name w)"

section \<open>Notation for the proofs\<close>

text \<open>
  The two full patterns and the two prefix patterns of \<open>parse_stats\<close> differ in the marker
  name only; \<open>assign_pairs d ps\<close> is \<open>d\<close> after the assignments \<open>d[k] = v\<close> for the pairs
  \<open>(k, v)\<close> of \<open>ps\<close>, in order.
\<close>

definition marker_pattern :: "string \<Rightarrow> pattern" where
  "marker_pattern nm = lits nm @ [Digits] @ lits '']='' @ [Digits, Lit CHR ''.'', Digits]"

definition marker_prefix_pattern :: "string \<Rightarrow> pattern" where
  "marker_prefix_pattern nm = lits nm @ [Digits] @ lits '']=''"

abbreviation assign_pairs :: "('k, 'v) dict \<Rightarrow> ('k \<times> 'v) list \<Rightarrow> ('k, 'v) dict" where
  "assign_pairs d ps \<equiv> foldl (\<lambda>d (k, v). dict_set k v d) d ps"

declare stats_loop.simps [simp del]

section \<open>Matching\<close>

lemma not_digit_simps [simp]:
  "\<not> is_digit CHR '']''" "\<not> is_digit CHR ''.''" "\<not> is_digit CHR ''=''" "\<not> is_digit CHR ''N''"
  by (simp_all add: is_digit_def)

lemma lits_simps [simp]: "lits [] = []" "lits (c # l) = Lit c # lits l"
  by (simp_all add: lits_def)

lemma match_here_lits:
  "match_here (lits l @ p) s =
     (if take (length l) s = l then match_here p (drop (length l) s) else None)"
proof (induction l arbitrary: s)
  case Nil
  then show ?case by simp
next
  case (Cons a l)
  then show ?case by (cases s) auto
qed

lemma try_digits_Some:
  "try_digits k s n = Some r \<Longrightarrow> \<exists>j. 0 < j \<and> j \<le> n \<and> k (drop j s) = Some r"
proof (induction n)
  case 0
  then show ?case by simp
next
  case (Suc n)
  then show ?case
    by (cases "k (drop (Suc n) s)") (auto intro: le_SucI)
qed

lemma try_digits_None:
  "(\<And>j. 0 < j \<Longrightarrow> j \<le> n \<Longrightarrow> k (drop j s) = None) \<Longrightarrow> try_digits k s n = None"
  by (induction n) auto

lemma try_digits_longest:
  assumes "\<And>j. 0 < j \<Longrightarrow> j < n \<Longrightarrow> k (drop j s) = None"
  shows "try_digits k s n = (if n = 0 then None else k (drop n s))"
proof (cases n)
  case 0
  then show ?thesis by simp
next
  case (Suc m)
  have "try_digits k s m = None"
    by (rule try_digits_None) (use assms Suc in auto)
  then show ?thesis using Suc by (cases "k (drop (Suc m) s)") auto
qed

lemma drop_within_digits:
  assumes "j < length (takeWhile is_digit s)"
  shows "\<exists>x xs. drop j s = x # xs \<and> is_digit x"
proof -
  have "j < length s" using assms length_takeWhile_le [of is_digit s] by (meson le_trans not_le)
  moreover have "is_digit (s ! j)"
    using assms by (metis nth_mem set_takeWhileD takeWhile_nth)
  ultimately show ?thesis by (metis Cons_nth_drop_Suc)
qed

lemma drop_takeWhile_length: "drop (length (takeWhile P s)) s = dropWhile P s"
  by (induction s) auto

lemma match_digits_lit:
  assumes "\<not> is_digit c"
  shows "match_here (Digits # Lit c # p) s =
           (if takeWhile is_digit s = [] then None
            else match_here (Lit c # p) (dropWhile is_digit s))"
proof -
  have "match_here (Lit c # p) (drop j s) = None" if "j < length (takeWhile is_digit s)" for j
    using drop_within_digits [OF that] assms by auto
  then have "try_digits (match_here (Lit c # p)) s (length (takeWhile is_digit s)) =
          (if length (takeWhile is_digit s) = 0 then None
           else match_here (Lit c # p) (drop (length (takeWhile is_digit s)) s))"
    by (intro try_digits_longest) auto
  then show ?thesis by (simp add: drop_takeWhile_length)
qed

lemma match_digits_end:
  "match_here [Digits] s =
     (if takeWhile is_digit s = [] then None else Some (dropWhile is_digit s))"
proof (cases "length (takeWhile is_digit s)")
  case 0
  then show ?thesis by simp
next
  case (Suc n)
  then have "takeWhile is_digit s \<noteq> []" by auto
  then show ?thesis using Suc drop_takeWhile_length [of is_digit s] by simp
qed

lemma match_marker_pattern:
  "match_here (marker_pattern nm) s =
     (if take (length nm) s \<noteq> nm then None
      else if takeWhile is_digit (drop (length nm) s) = [] then None
      else (case dropWhile is_digit (drop (length nm) s) of
              c1 # c2 # s3 \<Rightarrow>
                if c1 \<noteq> CHR '']'' \<or> c2 \<noteq> CHR ''='' then None
                else if takeWhile is_digit s3 = [] then None
                else (case dropWhile is_digit s3 of
                        [] \<Rightarrow> None
                      | c # s5 \<Rightarrow>
                          if c \<noteq> CHR ''.'' then None
                          else if takeWhile is_digit s5 = [] then None
                          else Some (dropWhile is_digit s5))
            | _ \<Rightarrow> None))"
  by (auto simp add: marker_pattern_def match_here_lits match_digits_lit match_digits_end
      simp del: match_here.simps(3) dropWhile_eq_Nil_conv split: list.splits)

lemma match_marker_prefix_pattern:
  "match_here (marker_prefix_pattern nm) s =
     (if take (length nm) s \<noteq> nm then None
      else if takeWhile is_digit (drop (length nm) s) = [] then None
      else (case dropWhile is_digit (drop (length nm) s) of
              c1 # c2 # s3 \<Rightarrow>
                if c1 \<noteq> CHR '']'' \<or> c2 \<noteq> CHR ''='' then None else Some s3
            | _ \<Rightarrow> None))"
  by (auto simp add: marker_prefix_pattern_def match_here_lits match_digits_lit
      simp del: match_here.simps(3) dropWhile_eq_Nil_conv split: list.splits)


lemma match_here_suffix: "match_here p s = Some r \<Longrightarrow> \<exists>m. s = m @ r"
proof (induction p arbitrary: s)
  case Nil
  then show ?case by simp
next
  case (Cons x p)
  show ?case
  proof (cases x)
    case (Lit c)
    with Cons.prems obtain xs where s: "s = c # xs" and m: "match_here p xs = Some r"
      by (auto split: list.splits if_splits)
    from Cons.IH [OF m] obtain m' where "xs = m' @ r" by blast
    with s have "s = (c # m') @ r" by simp
    then show ?thesis by blast
  next
    case Digits
    with Cons.prems obtain j where "match_here p (drop j s) = Some r"
      by (auto dest: try_digits_Some)
    from Cons.IH [OF this] obtain m' where "drop j s = m' @ r" by blast
    then have "s = (take j s @ m') @ r"
      by (metis append.assoc append_take_drop_id)
    then show ?thesis by blast
  qed
qed

lemma findall_elem:
  "m \<in> set (findall p s) \<Longrightarrow> \<exists>r. match_here p (m @ r) = Some r"
proof (induction p s rule: findall.induct)
  case (1 p)
  then obtain u where u: "match_here p [] = Some u" and m: "m = []"
    by (cases "match_here p []") auto
  from match_here_suffix [OF u] have "u = []" by simp
  with u m have "match_here p (m @ []) = Some []" by simp
  then show ?case by blast
next
  case (2 p c cs)
  show ?case
  proof (cases "match_here p (c # cs)")
    case None
    with 2 show ?thesis by simp
  next
    case (Some r)
    from match_here_suffix [OF Some] obtain m' where m': "c # cs = m' @ r" by blast
    show ?thesis
    proof (cases "length r < length (c # cs)")
      case True
      have tk: "take (length (c # cs) - length r) (c # cs) = m'"
        using m' by (metis add_diff_cancel_right' append_eq_conv_conj length_append)
      from "2.prems" Some True have "m = m' \<or> m \<in> set (findall p r)"
        using tk by (simp del: take_Suc_Cons)
      then show ?thesis
      proof
        assume "m = m'"
        with Some m' show ?thesis by metis
      next
        assume "m \<in> set (findall p r)"
        with "2.IH"(2) [OF Some True] show ?thesis by blast
      qed
    next
      case False
      with m' have "m' = []" by (metis length_append less_add_same_cancel2 length_greater_0_conv)
      with m' Some have at_r: "match_here p ([] @ r) = Some r" by simp
      from "2.prems" Some False have "m = [] \<or> m \<in> set (findall p cs)" by simp
      then show ?thesis
      proof
        assume "m = []"
        with at_r show ?thesis by blast
      next
        assume "m \<in> set (findall p cs)"
        with "2.IH"(3) [OF Some False] show ?thesis by blast
      qed
    qed
  qed
qed

lemma match_marker_decomp:
  assumes "match_here (marker_pattern nm) s = Some r"
  shows "\<exists>d1 d2 d3. s = nm @ d1 @ '']='' @ d2 @ ''.'' @ d3 @ r
           \<and> d1 \<noteq> [] \<and> (\<forall>x\<in>set d1. is_digit x)
           \<and> d2 \<noteq> [] \<and> (\<forall>x\<in>set d2. is_digit x)
           \<and> d3 \<noteq> [] \<and> (\<forall>x\<in>set d3. is_digit x)"
proof -
  let ?s1 = "drop (length nm) s"
  from assms have nm: "take (length nm) s = nm" and d1: "takeWhile is_digit ?s1 \<noteq> []"
    by (auto simp: match_marker_pattern split: if_splits)
  from assms nm d1 obtain s3 where s3: "dropWhile is_digit ?s1 = '']='' @ s3"
    and d2: "takeWhile is_digit s3 \<noteq> []"
    and rest: "(case dropWhile is_digit s3 of
                        [] \<Rightarrow> None
                      | c # s5 \<Rightarrow>
                          if c \<noteq> CHR ''.'' then None
                          else if takeWhile is_digit s5 = [] then None
                          else Some (dropWhile is_digit s5)) = Some r"
    by (auto simp: match_marker_pattern simp del: dropWhile_eq_Nil_conv
        split: if_splits list.splits)
  from rest obtain s5 where s5: "dropWhile is_digit s3 = ''.'' @ s5"
    and d3: "takeWhile is_digit s5 \<noteq> []" and r: "dropWhile is_digit s5 = r"
    by (auto simp del: dropWhile_eq_Nil_conv split: if_splits list.splits)
  have "s = nm @ ?s1" using nm by (metis append_take_drop_id)
  also have "?s1 = takeWhile is_digit ?s1 @ '']='' @ s3"
    using s3 by (metis takeWhile_dropWhile_id)
  also have "s3 = takeWhile is_digit s3 @ ''.'' @ s5"
    using s5 by (metis takeWhile_dropWhile_id)
  also have "s5 = takeWhile is_digit s5 @ r"
    using r by (metis takeWhile_dropWhile_id)
  finally have "s = nm @ takeWhile is_digit ?s1 @ '']='' @ takeWhile is_digit s3 @ ''.''
                   @ takeWhile is_digit s5 @ r" .
  moreover have "\<forall>x\<in>set (takeWhile is_digit t). is_digit x" for t
    by (auto dest: set_takeWhileD)
  ultimately show ?thesis using d1 d2 d3 by blast
qed

lemma takeWhile_digits_stop:
  assumes "\<forall>x\<in>set ds. is_digit x" "\<not> is_digit c"
  shows "takeWhile is_digit (ds @ c # t) = ds" "dropWhile is_digit (ds @ c # t) = c # t"
  using assms by (simp_all add: takeWhile_append2 dropWhile_append2)

lemma re_sub_no_first: "c \<notin> set s \<Longrightarrow> re_sub_empty (Lit c # p) s = s"
  by (induction s) auto

lemma marker_prefix_pattern_Cons:
  "marker_prefix_pattern (c # nm) = Lit c # marker_prefix_pattern nm"
  by (simp add: marker_prefix_pattern_def)

lemma re_sub_marker:
  assumes d1: "d1 \<noteq> []" "\<forall>x\<in>set d1. is_digit x"
    and nm: "nm = c # nm'" and c: "c \<notin> set payload"
  shows "re_sub_empty (marker_prefix_pattern nm) (nm @ d1 @ '']='' @ payload) = payload"
proof -
  have m: "match_here (marker_prefix_pattern nm) (nm @ d1 @ '']='' @ payload) = Some payload"
    using d1 by (simp add: match_marker_prefix_pattern takeWhile_digits_stop)
  have "re_sub_empty (marker_prefix_pattern nm) (c # nm' @ d1 @ '']='' @ payload)
        = re_sub_empty (marker_prefix_pattern nm) payload"
    using m nm by (subst re_sub_empty.simps) simp
  also have "\<dots> = payload"
    using c nm by (simp add: marker_prefix_pattern_Cons re_sub_no_first)
  finally show ?thesis using nm by simp
qed

lemma py_float_decimal:
  assumes "d2 \<noteq> []" "\<forall>x\<in>set d2. is_digit x" "d3 \<noteq> []" "\<forall>x\<in>set d3. is_digit x"
  shows "py_float (d2 @ ''.'' @ d3) = Inr (float_of_decimal (int_of_digits (d2 @ d3)) (length d3))"
  using assms by (simp add: py_float_def takeWhile_digits_stop list_all_iff)

lemma floats_of_marker:
  assumes "\<And>stat. stat \<in> set stats \<Longrightarrow> \<exists>r. match_here (marker_pattern nm) (stat @ r) = Some r"
    and nm: "nm = c # nm'" "\<not> is_digit c" "c \<noteq> CHR ''.''"
  shows "\<exists>xs. floats_of (marker_prefix_pattern nm) stats = Inr xs \<and> length xs = length stats"
  using assms(1)
proof (induction stats)
  case Nil
  then show ?case by simp
next
  case (Cons stat stats)
  from Cons.prems obtain r where "match_here (marker_pattern nm) (stat @ r) = Some r"
    by auto
  from match_marker_decomp [OF this] obtain d1 d2 d3 where
    stat: "stat = nm @ d1 @ '']='' @ d2 @ ''.'' @ d3"
    and d: "d1 \<noteq> []" "\<forall>x\<in>set d1. is_digit x" "d2 \<noteq> []" "\<forall>x\<in>set d2. is_digit x"
      "d3 \<noteq> []" "\<forall>x\<in>set d3. is_digit x"
    by auto
  have "c \<notin> set (d2 @ ''.'' @ d3)" using d nm by auto
  then have "re_sub_empty (marker_prefix_pattern nm) stat = d2 @ ''.'' @ d3"
    unfolding stat using d nm(1) by (intro re_sub_marker) auto
  then have "\<exists>x. py_float (re_sub_empty (marker_prefix_pattern nm) stat) = Inr x"
    using py_float_decimal [of d2 d3] d by simp
  moreover from Cons obtain xs where
    "floats_of (marker_prefix_pattern nm) stats = Inr xs \<and> length xs = length stats"
    by auto
  ultimately show ?case by auto
qed

lemma pattern_unfold:
  "throughput_pattern = marker_pattern ''NETPERF_INTERIM_RESULT[''"
  "extract_throughput_pattern = marker_prefix_pattern ''NETPERF_INTERIM_RESULT[''"
  "timestamp_pattern = marker_pattern ''NETPERF_ENDING[''"
  "extract_interval_pattern = marker_prefix_pattern ''NETPERF_ENDING[''"
  by (simp_all add: throughput_pattern_def extract_throughput_pattern_def timestamp_pattern_def
      extract_interval_pattern_def marker_pattern_def marker_prefix_pattern_def)

lemma throughputs_total:
  "\<exists>thr. throughputs raw = Inr thr \<and> length thr = length (findall throughput_pattern raw)"
  unfolding throughputs_def pattern_unfold
  by (rule floats_of_marker [where c = "CHR ''N''"]) (auto dest: findall_elem)

lemma timestamps_total:
  "\<exists>ts. timestamps raw = Inr ts \<and> length ts = length (findall timestamp_pattern raw)"
  unfolding timestamps_def pattern_unfold
  by (rule floats_of_marker [where c = "CHR ''N''"]) (auto dest: findall_elem)

section \<open>Dictionaries and the pairing loop\<close>

lemma map_of_dict_set: "map_of (dict_set k v d) = (map_of d)(k \<mapsto> v)"
  by (induction d) (auto simp: fun_upd_twist)

lemma keys_dict_set: "fst ` set (dict_set k v d) = insert k (fst ` set d)"
proof -
  have "dom (map_of (dict_set k v d)) = insert k (dom (map_of d))"
    by (simp add: map_of_dict_set)
  then show ?thesis by (simp add: dom_map_of_conv_image_fst)
qed

lemma distinct_dict_set: "distinct (map fst d) \<Longrightarrow> distinct (map fst (dict_set k v d))"
proof (induction d)
  case Nil
  then show ?case by simp
next
  case (Cons a d)
  then show ?case
    using keys_dict_set [of k v d] by (cases a) auto
qed

lemma dict_set_new: "k \<notin> fst ` set d \<Longrightarrow> dict_set k v d = d @ [(k, v)]"
  by (induction d) auto

lemma map_of_assign_pairs: "map_of (assign_pairs d ps) = map_of d ++ map_of (rev ps)"
proof (induction ps arbitrary: d)
  case Nil
  then show ?case by simp
next
  case (Cons p ps)
  obtain k v where p: "p = (k, v)" by (cases p)
  have "map_of (assign_pairs d (p # ps)) = map_of (dict_set k v d) ++ map_of (rev ps)"
    using Cons [of "dict_set k v d"] p by simp
  also have "\<dots> = map_of d ++ map_of (rev (p # ps))"
    by (simp add: map_of_dict_set p map_add_def fun_eq_iff split: option.splits)
  finally show ?case .
qed

lemma keys_assign_pairs: "fst ` set (assign_pairs d ps) = fst ` set d \<union> fst ` set ps"
proof -
  have "dom (map_of (assign_pairs d ps)) = dom (map_of d) \<union> dom (map_of (rev ps))"
    by (simp add: map_of_assign_pairs Un_commute)
  then show ?thesis by (simp add: dom_map_of_conv_image_fst)
qed

lemma distinct_assign_pairs:
  "distinct (map fst d) \<Longrightarrow> distinct (map fst (assign_pairs d ps))"
  by (induction ps arbitrary: d) (auto simp: distinct_dict_set)

lemma assign_pairs_distinct:
  "distinct (map fst (d @ ps)) \<Longrightarrow> assign_pairs d ps = d @ ps"
proof (induction ps arbitrary: d)
  case Nil
  then show ?case by simp
next
  case (Cons p ps)
  obtain k v where p: "p = (k, v)" by (cases p)
  from Cons.prems p have new: "k \<notin> fst ` set d" by auto
  from Cons.prems p have "distinct (map fst ((d @ [(k, v)]) @ ps))" by simp
  from Cons.IH [OF this] show ?case using new p by (simp add: dict_set_new)
qed

lemma map_of_rev_last:
  assumes "i < length ps" "fst (ps ! i) = k"
    and "\<And>j. i < j \<Longrightarrow> j < length ps \<Longrightarrow> fst (ps ! j) \<noteq> k"
  shows "map_of (rev ps) k = Some (snd (ps ! i))"
  using assms
proof (induction ps rule: rev_induct)
  case Nil
  then show ?case by simp
next
  case (snoc q qs)
  show ?case
  proof (cases "i = length qs")
    case True
    with snoc.prems(2) show ?thesis by (cases q) auto
  next
    case False
    with snoc.prems(1) have i: "i < length qs" by simp
    have "fst q \<noteq> k"
      using snoc.prems(3) [of "length qs"] i by simp
    moreover have "map_of (rev qs) k = Some (snd (qs ! i))"
    proof (rule snoc.IH [OF i])
      show "fst (qs ! i) = k" using snoc.prems(2) i by (simp add: nth_append)
      show "fst (qs ! j) \<noteq> k" if "i < j" "j < length qs" for j
        using snoc.prems(3) [of j] that by (simp add: nth_append)
    qed
    ultimately show ?thesis using i by (cases q) (auto simp: nth_append)
  qed
qed

lemma filter_absent_key: "k \<notin> fst ` set d \<Longrightarrow> filter (\<lambda>kv. fst kv = k) d = []"
  by (induction d) auto

lemma count_key_distinct:
  "distinct (map fst d) \<Longrightarrow> k \<in> fst ` set d \<Longrightarrow> length (filter (\<lambda>kv. fst kv = k) d) = 1"
proof (induction d)
  case Nil
  then show ?case by simp
next
  case (Cons a d)
  show ?case
  proof (cases "fst a = k")
    case True
    with Cons.prems have "k \<notin> fst ` set d" by simp
    then have "filter (\<lambda>kv. fst kv = k) d = []"
      by (rule filter_absent_key)
    with True show ?thesis by simp
  next
    case False
    with Cons show ?thesis by auto
  qed
qed

lemma stats_loop_ok:
  "length thr \<le> length ts \<Longrightarrow>
   stats_loop i thr ts d = Inr (assign_pairs d (drop i (zip ts thr)))"
proof (induction i thr ts d rule: stats_loop.induct)
  case (1 i thr ts d)
  show ?case
  proof (cases "i < length thr")
    case True
    with "1.prems" have its: "i < length ts" by simp
    have "drop i (zip ts thr) = (ts ! i, thr ! i) # drop (Suc i) (zip ts thr)"
      using True its by (simp add: Cons_nth_drop_Suc [symmetric])
    with "1.IH" [OF True its "1.prems"] True its show ?thesis
      by (subst stats_loop.simps) simp
  next
    case False
    then show ?thesis by (subst stats_loop.simps) simp
  qed
qed

lemma stats_loop_fail:
  "length ts < length thr \<Longrightarrow> i \<le> length ts \<Longrightarrow> stats_loop i thr ts d = Inl IndexError"
proof (induction i thr ts d rule: stats_loop.induct)
  case (1 i thr ts d)
  show ?case
  proof (cases "i < length ts")
    case True
    with "1.prems" have "i < length thr" by simp
    with "1.IH" [OF this True "1.prems"(1)] True show ?thesis
      by (subst stats_loop.simps) simp
  next
    case False
    with "1.prems" show ?thesis by (subst stats_loop.simps) simp
  qed
qed

lemma parse_dict_ok:
  assumes "throughputs raw = Inr thr" "timestamps raw = Inr ts" "length thr \<le> length ts"
  shows "parse_dict raw = Inr (assign_pairs [] (zip ts thr))"
  using assms by (simp add: parse_dict_def stats_loop_ok)

lemma parse_dict_fail:
  assumes "throughputs raw = Inr thr" "timestamps raw = Inr ts" "length ts < length thr"
  shows "parse_dict raw = Inl IndexError"
  using assms by (simp add: parse_dict_def stats_loop_fail)

section \<open>The client command\<close>

lemmas cmd_defs = netperf_cmd_def select_test_options_def kwargs_get_def dict_get_def
  dict_values_def DEFAULT_NETPERF_OPTIONS_def NETPERF_TCP_OPTIONS_def NETPERF_UDP_OPTIONS_def
  INTERVAL_str_def

text \<open>
  C1. For a \<open>TCP_STREAM\<close> request the command should carry exactly one \<open>-K\<close> flag, with the
  requested algorithm in place of \<open>cubic\<close>. The code stores the requested algorithm under
  the key \<open>cong_alg\<close>, not \<open>cong_algo\<close>, so the default entry stays and a second one is
  appended: for the request \<open>testname='TCP_STREAM', cong_algo='bbr'\<close> the test options are
  \<open>-K cubic -k THROUGHPUT -K bbr\<close>, two \<open>-K\<close> flags, the first still \<open>cubic\<close>.
\<close>

theorem tcp_command_repeats_cong_flag:
  "netperf_cmd ''ns1'' ''10.0.0.2'' 10 [''testname'' \<mapsto> ''TCP_STREAM'', ''cong_algo'' \<mapsto> ''bbr'']
     = Inr ''ip netns exec ns1 netperf -P 0 -4 -t TCP_STREAM -F /dev/urandom -l 10 -D -0.2 -H 10.0.0.2 -- -K cubic -k THROUGHPUT -K bbr''
   \<and> drop 19 (str_split ''ip netns exec ns1 netperf -P 0 -4 -t TCP_STREAM -F /dev/urandom -l 10 -D -0.2 -H 10.0.0.2 -- -K cubic -k THROUGHPUT -K bbr'')
     = [''-K'', ''cubic'', ''-k'', ''THROUGHPUT'', ''-K'', ''bbr'']"
  by (simp add: cmd_defs str_int_def digit_char_def str_split_def is_space_def)

text \<open>
  C3. When the test name is neither \<open>TCP_STREAM\<close> nor \<open>UDP_STREAM\<close>, \<open>test_options\<close> stays
  \<open>None\<close> and \<open>test_options.values()\<close> raises (an \<open>AttributeError\<close>): building the command
  fails, \<open>run_netperf\<close> returns that error to its caller, and the log is unchanged, so nothing
  was slept, run or stored.
\<close>

theorem unrecognized_testname_fails:
  assumes "kw ''testname'' = Some tn" "tn \<noteq> ''TCP_STREAM''" "tn \<noteq> ''UDP_STREAM''"
  shows "netperf_cmd ns ip rt kw = Inl (AttributeError ''values'')
       \<and> run_netperf env ns ip st rt kw w = (Inl (AttributeError ''values''), w)"
  using assms by (simp add: run_netperf_def cmd_defs)

theorem unrecognized_testname_fails_witness:
  "netperf_cmd ''ns1'' ''10.0.0.2'' 10 [''testname'' \<mapsto> ''TCP_RR''] = Inl (AttributeError ''values'')
   \<and> run_netperf quiet_child ''ns1'' ''10.0.0.2'' 2 10 [''testname'' \<mapsto> ''TCP_RR''] []
       = (Inl (AttributeError ''values''), [])"
  using unrecognized_testname_fails [of "[''testname'' \<mapsto> ''TCP_RR'']" "''TCP_RR''"
      "''ns1''" "''10.0.0.2''" 10 quiet_child 2 "[]"]
  by simp

text \<open>
  C7. For a recognized test name the command is
  \<open>ip netns exec <ns> netperf <base options> -H <ip> -- <test options>\<close>. The base options
  are the values of \<open>DEFAULT_NETPERF_OPTIONS\<close> in their declared order, joined by a space,
  with the value of \<open>testlen\<close> replaced by \<open>-l <run_time>\<close> and that of \<open>testname\<close> by
  \<open>-t <testname>\<close>, every other value as declared (last conjunct).
\<close>

theorem client_command_shape:
  assumes "kw ''testname'' = Some tn"
  shows "(tn = ''UDP_STREAM'' \<longrightarrow>
            netperf_cmd ns ip rt kw =
              Inr (''ip netns exec '' @ ns @ '' netperf ''
                   @ ''-P 0 -4 -t UDP_STREAM -F /dev/urandom -l '' @ str_int rt @ '' -D -0.2''
                   @ '' -H '' @ ip @ '' -- '' @ ''-R 1 -k THROUGHPUT''))
       \<and> (tn = ''TCP_STREAM'' \<longrightarrow> kw ''cong_algo'' = Some algo \<longrightarrow>
            netperf_cmd ns ip rt kw =
              Inr (''ip netns exec '' @ ns @ '' netperf ''
                   @ ''-P 0 -4 -t TCP_STREAM -F /dev/urandom -l '' @ str_int rt @ '' -D -0.2''
                   @ '' -H '' @ ip @ '' -- '' @ ''-K cubic -k THROUGHPUT -K '' @ algo))
       \<and> ''-P 0 -4 -t '' @ tn @ '' -F /dev/urandom -l '' @ str_int rt @ '' -D -0.2''
           = str_join '' ''
               (map (\<lambda>(k, v). if k = ''testlen'' then ''-l '' @ str_int rt
                               else if k = ''testname'' then ''-t '' @ tn else v)
                  DEFAULT_NETPERF_OPTIONS)"
  using assms by (simp add: cmd_defs)

theorem client_command_shape_witness:
  "netperf_cmd ''ns1'' ''10.0.0.2'' 30 [''testname'' \<mapsto> ''UDP_STREAM'']
     = Inr ''ip netns exec ns1 netperf -P 0 -4 -t UDP_STREAM -F /dev/urandom -l 30 -D -0.2 -H 10.0.0.2 -- -R 1 -k THROUGHPUT''
   \<and> netperf_cmd ''ns2'' ''10.0.0.3'' 5 [''testname'' \<mapsto> ''TCP_STREAM'', ''cong_algo'' \<mapsto> ''reno'']
     = Inr ''ip netns exec ns2 netperf -P 0 -4 -t TCP_STREAM -F /dev/urandom -l 5 -D -0.2 -H 10.0.0.3 -- -K cubic -k THROUGHPUT -K reno''"
  using client_command_shape [of "[''testname'' \<mapsto> ''UDP_STREAM'']" "''UDP_STREAM''"
      "''ns1''" "''10.0.0.2''" 30]
    client_command_shape [of "[''testname'' \<mapsto> ''TCP_STREAM'', ''cong_algo'' \<mapsto> ''reno'']"
      "''TCP_STREAM''" "''ns2''" "''10.0.0.3''" 5 "''reno''"]
  by (simp add: str_int_def digit_char_def)

section \<open>Parsing: which throughput goes with which timestamp\<close>

lemmas eval_defs = throughputs_def timestamps_def throughput_pattern_def timestamp_pattern_def
  extract_throughput_pattern_def extract_interval_pattern_def is_digit_def
  py_float_def float_of_decimal_def binade_def round_half_even_def pow2_def int_of_digits_def
  digit_val_def

lemma zip_take_left: "zip (take (length ys) xs) ys = zip xs ys"
proof -
  have "zip (take (length ys) xs) (take (length ys) ys) = take (length ys) (zip xs ys)"
    by (rule take_zip [symmetric])
  then show ?thesis by simp
qed

lemma parse_stats_of_dict:
  "parse_dict raw = Inr d \<Longrightarrow>
   parse_stats raw ns w = (Inr (), w @ [LockAcquire, AddResult ns d, LockRelease])"
  "parse_dict raw = Inl e \<Longrightarrow> parse_stats raw ns w = (Inl e, w)"
  by (simp_all add: parse_stats_def)

lemma zip_keys: "length thr \<le> length ts \<Longrightarrow> map fst (zip ts thr) = take (length thr) ts"
  by (simp add: map_fst_zip_take min_def)

text \<open>
  C2, as stated, fails. The loop runs over the indices of \<open>throughputs\<close> and reads
  \<open>timestamps[i]\<close> unguarded: with three throughput markers and two timestamp markers the
  third iteration raises \<open>IndexError\<close>, and \<open>parse_stats\<close> neither returns a mapping nor
  reaches the lock and the result store.
\<close>

theorem more_throughputs_than_timestamps_raises:
  "length (findall throughput_pattern
      ''NETPERF_INTERIM_RESULT[0]=10.0 NETPERF_ENDING[0]=1.0 NETPERF_INTERIM_RESULT[1]=20.0 NETPERF_ENDING[1]=2.0 NETPERF_INTERIM_RESULT[2]=30.0'') = 3
   \<and> length (findall timestamp_pattern
      ''NETPERF_INTERIM_RESULT[0]=10.0 NETPERF_ENDING[0]=1.0 NETPERF_INTERIM_RESULT[1]=20.0 NETPERF_ENDING[1]=2.0 NETPERF_INTERIM_RESULT[2]=30.0'') = 2
   \<and> parse_stats
      ''NETPERF_INTERIM_RESULT[0]=10.0 NETPERF_ENDING[0]=1.0 NETPERF_INTERIM_RESULT[1]=20.0 NETPERF_ENDING[1]=2.0 NETPERF_INTERIM_RESULT[2]=30.0''
      ''ns1'' [] = (Inl IndexError, [])"
  by (simp add: eval_defs parse_stats_def parse_dict_def stats_loop.simps)

text \<open>
  C2, amended. Every input yields the two lists of floats (no conversion raises), one entry
  per marker. When there are at most as many throughput markers as timestamp markers,
  \<open>parse_stats\<close> raises nothing and hands over a mapping whose keys are the first
  \<open>len(throughputs)\<close> timestamps only: the timestamps beyond that are dropped, and when the
  kept ones are distinct the mapping has exactly \<open>len(throughputs)\<close> samples. When there
  are more throughput markers than timestamp markers it raises \<open>IndexError\<close> and the log is
  unchanged.
\<close>

theorem parse_stats_truncates_to_throughputs:
  "\<exists>thr ts. throughputs raw = Inr thr \<and> timestamps raw = Inr ts
     \<and> length thr = length (findall throughput_pattern raw)
     \<and> length ts = length (findall timestamp_pattern raw)
     \<and> (length thr \<le> length ts \<longrightarrow>
          (\<exists>d. parse_stats raw ns w = (Inr (), w @ [LockAcquire, AddResult ns d, LockRelease])
             \<and> fst ` set d = set (take (length thr) ts)
             \<and> length d = card (set (take (length thr) ts))
             \<and> (distinct (take (length thr) ts) \<longrightarrow> d = zip (take (length thr) ts) thr)))
     \<and> (length ts < length thr \<longrightarrow> parse_stats raw ns w = (Inl IndexError, w))"
proof -
  from throughputs_total [of raw] obtain thr where
    thr: "throughputs raw = Inr thr" "length thr = length (findall throughput_pattern raw)"
    by blast
  from timestamps_total [of raw] obtain ts where
    ts: "timestamps raw = Inr ts" "length ts = length (findall timestamp_pattern raw)"
    by blast
  let ?d = "assign_pairs [] (zip ts thr)"
  have ok: "\<exists>d. parse_stats raw ns w = (Inr (), w @ [LockAcquire, AddResult ns d, LockRelease])
             \<and> fst ` set d = set (take (length thr) ts)
             \<and> length d = card (set (take (length thr) ts))
             \<and> (distinct (take (length thr) ts) \<longrightarrow> d = zip (take (length thr) ts) thr)"
    if le: "length thr \<le> length ts"
  proof -
    have p: "parse_stats raw ns w = (Inr (), w @ [LockAcquire, AddResult ns ?d, LockRelease])"
      using parse_dict_ok [OF thr(1) ts(1) le] by (rule parse_stats_of_dict)
    have "fst ` set ?d = set (map fst (zip ts thr))"
      using keys_assign_pairs [of "[]" "zip ts thr"] by simp
    then have keys: "fst ` set ?d = set (take (length thr) ts)"
      by (simp only: zip_keys [OF le])
    have "distinct (map fst ?d)"
      by (rule distinct_assign_pairs) simp
    then have "card (set (map fst ?d)) = length (map fst ?d)"
      by (rule distinct_card)
    then have "length ?d = card (fst ` set ?d)"
      by simp
    with keys have len: "length ?d = card (set (take (length thr) ts))" by simp
    have dz: "distinct (take (length thr) ts) \<longrightarrow> ?d = zip (take (length thr) ts) thr"
    proof
      assume dist: "distinct (take (length thr) ts)"
      have "?d = zip ts thr"
        using assign_pairs_distinct [of "[]" "zip ts thr"] dist zip_keys [OF le] by simp
      also have "\<dots> = zip (take (length thr) ts) thr"
        by (rule zip_take_left [symmetric])
      finally show "?d = zip (take (length thr) ts) thr" .
    qed
    show ?thesis
    proof (intro exI [of _ ?d] conjI)
      show "parse_stats raw ns w = (Inr (), w @ [LockAcquire, AddResult ns ?d, LockRelease])"
        by (rule p)
      show "fst ` set ?d = set (take (length thr) ts)" by (rule keys)
      show "length ?d = card (set (take (length thr) ts))" by (rule len)
      show "distinct (take (length thr) ts) \<longrightarrow> ?d = zip (take (length thr) ts) thr"
        by (rule dz)
    qed
  qed
  have bad: "parse_stats raw ns w = (Inl IndexError, w)" if "length ts < length thr"
    using parse_dict_fail [OF thr(1) ts(1) that] by (rule parse_stats_of_dict)
  show ?thesis
  proof (rule exI [of _ thr], rule exI [of _ ts], intro conjI)
    show "throughputs raw = Inr thr" by (rule thr(1))
    show "timestamps raw = Inr ts" by (rule ts(1))
    show "length thr = length (findall throughput_pattern raw)" by (rule thr(2))
    show "length ts = length (findall timestamp_pattern raw)" by (rule ts(2))
    show "length thr \<le> length ts \<longrightarrow>
          (\<exists>d. parse_stats raw ns w = (Inr (), w @ [LockAcquire, AddResult ns d, LockRelease])
             \<and> fst ` set d = set (take (length thr) ts)
             \<and> length d = card (set (take (length thr) ts))
             \<and> (distinct (take (length thr) ts) \<longrightarrow> d = zip (take (length thr) ts) thr))"
      using ok by (rule impI)
    show "length ts < length thr \<longrightarrow> parse_stats raw ns w = (Inl IndexError, w)"
      using bad by (rule impI)
  qed
qed

theorem parse_stats_truncates_to_throughputs_witness:
  "parse_stats
      ''NETPERF_INTERIM_RESULT[0]=10.0 NETPERF_ENDING[0]=1.0 NETPERF_INTERIM_RESULT[1]=20.0 NETPERF_ENDING[1]=2.0 NETPERF_ENDING[2]=3.0''
      ''ns1'' []
     = (Inr (), [LockAcquire, AddResult ''ns1'' [(Finite 1, Finite 10), (Finite 2, Finite 20)],
                 LockRelease])"
proof -
  let ?raw = "''NETPERF_INTERIM_RESULT[0]=10.0 NETPERF_ENDING[0]=1.0 NETPERF_INTERIM_RESULT[1]=20.0 NETPERF_ENDING[1]=2.0 NETPERF_ENDING[2]=3.0''"
  have thr: "throughputs ?raw = Inr [Finite 10, Finite 20]"
    by (simp add: eval_defs)
  have ts: "timestamps ?raw = Inr [Finite 1, Finite 2, Finite 3]"
    by (simp add: eval_defs)
  from parse_stats_truncates_to_throughputs [of ?raw "''ns1''" "[]"] thr ts
  show ?thesis by auto
qed

lemma floats_of_nth:
  "floats_of ep stats = Inr xs \<Longrightarrow>
   length xs = length stats
   \<and> (\<forall>i<length stats. py_float (re_sub_empty ep (stats ! i)) = Inr (xs ! i))"
proof (induction stats arbitrary: xs)
  case Nil
  then show ?case by simp
next
  case (Cons stat stats)
  from Cons.prems obtain x xs' where
    x: "py_float (re_sub_empty ep stat) = Inr x" and xs': "floats_of ep stats = Inr xs'"
    and xs: "xs = x # xs'"
    by (auto split: sum.splits)
  from Cons.IH [OF xs'] x xs show ?case
    by (auto simp: nth_Cons split: nat.splits)
qed

lemma last_occurrence:
  fixes f :: "nat \<Rightarrow> 'a"
  assumes "i < n"
  shows "\<exists>j. i \<le> j \<and> j < n \<and> f j = f i \<and> (\<forall>l. j < l \<and> l < n \<longrightarrow> f l \<noteq> f i)"
proof -
  let ?P = "\<lambda>l. l < n \<and> f l = f i"
  have Pi: "?P i" using assms by simp
  have bound: "y \<le> n" if "?P y" for y using that by simp
  have top: "?P (Greatest ?P)"
    using Pi bound by (rule GreatestI_nat)
  have above: "i \<le> Greatest ?P"
    using Pi bound by (rule Greatest_le_nat)
  have "f l \<noteq> f i" if "Greatest ?P < l" "l < n" for l
  proof
    assume "f l = f i"
    with that(2) have "?P l" by simp
    then have "l \<le> Greatest ?P" using bound by (rule Greatest_le_nat)
    with that(1) show False by simp
  qed
  with top above show ?thesis by blast
qed

lemma pairing_of_lists:
  assumes "throughputs raw = Inr thr" "timestamps raw = Inr ts" "length thr \<le> length ts"
  shows "\<exists>d. parse_dict raw = Inr d
           \<and> parse_stats raw ns w = (Inr (), w @ [LockAcquire, AddResult ns d, LockRelease])
           \<and> d = assign_pairs [] (zip ts thr)
           \<and> (\<forall>i<length thr. (\<forall>j. i < j \<and> j < length thr \<longrightarrow> ts ! j \<noteq> ts ! i)
                  \<longrightarrow> dict_get d (ts ! i) = Some (thr ! i))
           \<and> (distinct (take (length thr) ts) \<longrightarrow> d = zip ts thr)"
proof -
  let ?ps = "zip ts thr"
  let ?d = "assign_pairs [] ?ps"
  have pd: "parse_dict raw = Inr ?d"
    using assms by (rule parse_dict_ok)
  have look: "dict_get ?d (ts ! i) = Some (thr ! i)"
    if i: "i < length thr" and last: "\<forall>j. i < j \<and> j < length thr \<longrightarrow> ts ! j \<noteq> ts ! i" for i
  proof -
    have "map_of (rev ?ps) (ts ! i) = Some (snd (?ps ! i))"
    proof (rule map_of_rev_last)
      show "i < length ?ps" using i assms(3) by simp
      show "fst (?ps ! i) = ts ! i" using i assms(3) by simp
      show "fst (?ps ! j) \<noteq> ts ! i" if "i < j" "j < length ?ps" for j
        using that last assms(3) by simp
    qed
    then show ?thesis
      using i assms(3) by (simp add: dict_get_def map_of_assign_pairs)
  qed
  have "?d = ?ps" if "distinct (take (length thr) ts)"
    using assign_pairs_distinct [of "[]" ?ps] that zip_keys [OF assms(3)] by simp
  with pd look parse_stats_of_dict(1) [OF pd] show ?thesis by blast
qed

lemma last_pair_of_lists:
  assumes "throughputs raw = Inr thr" "timestamps raw = Inr ts" "length thr \<le> length ts"
    and "j < length thr" "\<forall>l. j < l \<and> l < length thr \<longrightarrow> ts ! l \<noteq> ts ! j"
  shows "\<exists>d. parse_dict raw = Inr d
           \<and> length (filter (\<lambda>kv. fst kv = ts ! j) d) = 1
           \<and> dict_get d (ts ! j) = Some (thr ! j)"
proof -
  let ?ps = "zip ts thr"
  let ?d = "assign_pairs [] ?ps"
  have pd: "parse_dict raw = Inr ?d"
    using assms(1-3) by (rule parse_dict_ok)
  have "ts ! j = take (length thr) ts ! j" using assms(4) by simp
  moreover have "j < length (take (length thr) ts)" using assms(3,4) by simp
  ultimately have "ts ! j \<in> set (take (length thr) ts)"
    by (simp only: nth_mem)
  moreover have "fst ` set ?d = set (map fst ?ps)"
    using keys_assign_pairs [of "[]" ?ps] by simp
  ultimately have "ts ! j \<in> fst ` set ?d"
    by (simp only: zip_keys [OF assms(3)])
  moreover have "distinct (map fst ?d)"
    by (rule distinct_assign_pairs) simp
  ultimately have once: "length (filter (\<lambda>kv. fst kv = ts ! j) ?d) = 1"
    by (intro count_key_distinct)
  have "map_of (rev ?ps) (ts ! j) = Some (snd (?ps ! j))"
  proof (rule map_of_rev_last)
    show "j < length ?ps" using assms(3,4) by simp
    show "fst (?ps ! j) = ts ! j" using assms(3,4) by simp
    show "fst (?ps ! l) \<noteq> ts ! j" if "j < l" "l < length ?ps" for l
      using that assms(3,5) by simp
  qed
  then have "dict_get ?d (ts ! j) = Some (thr ! j)"
    using assms(3,4) by (simp add: dict_get_def map_of_assign_pairs)
  with pd once show ?thesis by blast
qed

text \<open>
  C4, as stated, fails. It speaks of every parser input; on the claim's own example with the
  last timestamp marker left out there are two throughputs and one timestamp, index 0
  exists on both sides, and yet no mapping pairs them: the loop raises \<open>IndexError\<close> at
  index 1 and \<open>parse_stats\<close> produces nothing.
\<close>

theorem throughput_without_timestamp_raises:
  "throughputs ''NETPERF_INTERIM_RESULT[0]=12.5 ... NETPERF_ENDING[0]=1.0 NETPERF_INTERIM_RESULT[1]=15.0''
     = Inr [Finite (25 / 2), Finite 15]
   \<and> timestamps ''NETPERF_INTERIM_RESULT[0]=12.5 ... NETPERF_ENDING[0]=1.0 NETPERF_INTERIM_RESULT[1]=15.0''
     = Inr [Finite 1]
   \<and> parse_dict ''NETPERF_INTERIM_RESULT[0]=12.5 ... NETPERF_ENDING[0]=1.0 NETPERF_INTERIM_RESULT[1]=15.0''
     = Inl IndexError
   \<and> parse_stats ''NETPERF_INTERIM_RESULT[0]=12.5 ... NETPERF_ENDING[0]=1.0 NETPERF_INTERIM_RESULT[1]=15.0''
       ''ns1'' [] = (Inl IndexError, [])"
  by (simp add: eval_defs parse_stats_def parse_dict_def stats_loop.simps)

text \<open>
  C4, amended. For every input with at least as many timestamp markers as throughput
  markers: the \<open>i\<close>-th throughput is the float of the payload of the \<open>i\<close>-th throughput
  marker found, the \<open>i\<close>-th timestamp that of the \<open>i\<close>-th timestamp marker found, and the
  mapping handed to the result store is the result of assigning, for \<open>i = 0, 1, ...\<close> in
  order, the \<open>i\<close>-th throughput to the key that is the \<open>i\<close>-th timestamp. That key then
  reads the \<open>i\<close>-th throughput unless the same timestamp occurs again at a later pair, and
  with distinct timestamps the mapping is the list of the pairs itself. The witness is the
  interleaved input of the claim, which yields \<open>{1.0: 12.5, 2.0: 15.0}\<close>.
\<close>

theorem positional_pairing:
  assumes "length (findall throughput_pattern raw) \<le> length (findall timestamp_pattern raw)"
  shows "\<exists>thr ts d.
           throughputs raw = Inr thr \<and> timestamps raw = Inr ts
         \<and> length thr = length (findall throughput_pattern raw)
         \<and> length ts = length (findall timestamp_pattern raw)
         \<and> (\<forall>i<length thr.
               py_float (re_sub_empty extract_throughput_pattern
                           (findall throughput_pattern raw ! i)) = Inr (thr ! i))
         \<and> (\<forall>i<length ts.
               py_float (re_sub_empty extract_interval_pattern
                           (findall timestamp_pattern raw ! i)) = Inr (ts ! i))
         \<and> parse_dict raw = Inr d
         \<and> parse_stats raw ns w = (Inr (), w @ [LockAcquire, AddResult ns d, LockRelease])
         \<and> d = assign_pairs [] (zip ts thr)
         \<and> (\<forall>i<length thr. (\<forall>j. i < j \<and> j < length thr \<longrightarrow> ts ! j \<noteq> ts ! i)
                \<longrightarrow> dict_get d (ts ! i) = Some (thr ! i))
         \<and> (distinct (take (length thr) ts) \<longrightarrow> d = zip ts thr)"
proof -
  from throughputs_total [of raw] obtain thr where
    thr: "throughputs raw = Inr thr" "length thr = length (findall throughput_pattern raw)"
    by blast
  from timestamps_total [of raw] obtain ts where
    ts: "timestamps raw = Inr ts" "length ts = length (findall timestamp_pattern raw)"
    by blast
  have nthr: "\<forall>i<length thr.
               py_float (re_sub_empty extract_throughput_pattern
                           (findall throughput_pattern raw ! i)) = Inr (thr ! i)"
    using floats_of_nth [OF thr(1) [unfolded throughputs_def]] by simp
  have nts: "\<forall>i<length ts.
               py_float (re_sub_empty extract_interval_pattern
                           (findall timestamp_pattern raw ! i)) = Inr (ts ! i)"
    using floats_of_nth [OF ts(1) [unfolded timestamps_def]] by simp
  have le: "length thr \<le> length ts"
    using assms thr(2) ts(2) by simp
  from pairing_of_lists [OF thr(1) ts(1) le, of ns w] obtain d where
    d: "parse_dict raw = Inr d"
      "parse_stats raw ns w = (Inr (), w @ [LockAcquire, AddResult ns d, LockRelease])"
      "d = assign_pairs [] (zip ts thr)"
      "\<forall>i<length thr. (\<forall>j. i < j \<and> j < length thr \<longrightarrow> ts ! j \<noteq> ts ! i)
                \<longrightarrow> dict_get d (ts ! i) = Some (thr ! i)"
      "distinct (take (length thr) ts) \<longrightarrow> d = zip ts thr"
    by blast
  show ?thesis
  proof (rule exI [of _ thr], rule exI [of _ ts], rule exI [of _ d], intro conjI)
    show "throughputs raw = Inr thr" by (rule thr(1))
    show "timestamps raw = Inr ts" by (rule ts(1))
    show "length thr = length (findall throughput_pattern raw)" by (rule thr(2))
    show "length ts = length (findall timestamp_pattern raw)" by (rule ts(2))
    show "\<forall>i<length thr.
               py_float (re_sub_empty extract_throughput_pattern
                           (findall throughput_pattern raw ! i)) = Inr (thr ! i)"
      by (rule nthr)
    show "\<forall>i<length ts.
               py_float (re_sub_empty extract_interval_pattern
                           (findall timestamp_pattern raw ! i)) = Inr (ts ! i)"
      by (rule nts)
    show "parse_dict raw = Inr d" by (rule d(1))
    show "parse_stats raw ns w = (Inr (), w @ [LockAcquire, AddResult ns d, LockRelease])"
      by (rule d(2))
    show "d = assign_pairs [] (zip ts thr)" by (rule d(3))
    show "\<forall>i<length thr. (\<forall>j. i < j \<and> j < length thr \<longrightarrow> ts ! j \<noteq> ts ! i)
                \<longrightarrow> dict_get d (ts ! i) = Some (thr ! i)"
      by (rule d(4))
    show "distinct (take (length thr) ts) \<longrightarrow> d = zip ts thr" by (rule d(5))
  qed
qed

theorem positional_pairing_witness:
  "parse_dict ''NETPERF_INTERIM_RESULT[0]=12.5 ... NETPERF_ENDING[0]=1.0 NETPERF_INTERIM_RESULT[1]=15.0 NETPERF_ENDING[1]=2.0''
     = Inr [(Finite 1, Finite (25 / 2)), (Finite 2, Finite 15)]"
proof -
  let ?raw = "''NETPERF_INTERIM_RESULT[0]=12.5 ... NETPERF_ENDING[0]=1.0 NETPERF_INTERIM_RESULT[1]=15.0 NETPERF_ENDING[1]=2.0''"
  have thr: "throughputs ?raw = Inr [Finite (25 / 2), Finite 15]"
    by (simp add: eval_defs)
  have ts: "timestamps ?raw = Inr [Finite 1, Finite 2]"
    by (simp add: eval_defs)
  have counts: "length (findall throughput_pattern ?raw) \<le> length (findall timestamp_pattern ?raw)"
    by (simp add: throughput_pattern_def timestamp_pattern_def is_digit_def)
  from positional_pairing [OF counts] obtain thr' ts' d where
    "throughputs ?raw = Inr thr'" "timestamps ?raw = Inr ts'"
    "parse_dict ?raw = Inr d" "d = assign_pairs [] (zip ts' thr')"
    by blast
  with thr ts show ?thesis by simp
qed

text \<open>
  C5, as stated, fails on two kinds of input. With timestamps \<open>1.0\<close>, \<open>1.0\<close> and three
  throughputs the loop raises \<open>IndexError\<close> and there is no mapping at all. With one
  throughput and timestamps \<open>1.0\<close>, \<open>2.0\<close>, \<open>2.0\<close> the repeated timestamp \<open>2.0\<close> only occurs
  at markers that no throughput is paired with, and the mapping \<open>{1.0: 10.0}\<close> does not
  contain it.
\<close>

theorem duplicate_timestamp_not_kept:
  "timestamps ''NETPERF_INTERIM_RESULT[0]=10.0 NETPERF_ENDING[0]=1.0 NETPERF_INTERIM_RESULT[1]=20.0 NETPERF_ENDING[1]=1.0 NETPERF_INTERIM_RESULT[2]=30.0''
     = Inr [Finite 1, Finite 1]
   \<and> parse_dict ''NETPERF_INTERIM_RESULT[0]=10.0 NETPERF_ENDING[0]=1.0 NETPERF_INTERIM_RESULT[1]=20.0 NETPERF_ENDING[1]=1.0 NETPERF_INTERIM_RESULT[2]=30.0''
     = Inl IndexError
   \<and> timestamps ''NETPERF_INTERIM_RESULT[0]=10.0 NETPERF_ENDING[0]=1.0 NETPERF_ENDING[1]=2.0 NETPERF_ENDING[2]=2.0''
     = Inr [Finite 1, Finite 2, Finite 2]
   \<and> parse_dict ''NETPERF_INTERIM_RESULT[0]=10.0 NETPERF_ENDING[0]=1.0 NETPERF_ENDING[1]=2.0 NETPERF_ENDING[2]=2.0''
     = Inr [(Finite 1, Finite 10)]"
  by (simp add: eval_defs parse_dict_def stats_loop.simps)

text \<open>
  C5, amended. For every input with at least as many timestamp markers as throughput
  markers, take any timestamp among the paired ones (index \<open>i\<close> below the number of
  throughputs), whether its value occurs once or several times. There is a last paired
  index \<open>j\<close> carrying the same value; the mapping contains that timestamp exactly once, and
  its value is the \<open>j\<close>-th throughput. The witness is the claim's example: timestamps \<open>1.0\<close>,
  \<open>1.0\<close> with throughputs \<open>10.0\<close>, \<open>20.0\<close> yield \<open>{1.0: 20.0}\<close>.
\<close>

theorem duplicate_timestamp_last_wins:
  assumes "length (findall throughput_pattern raw) \<le> length (findall timestamp_pattern raw)"
  shows "\<exists>thr ts d.
           throughputs raw = Inr thr \<and> timestamps raw = Inr ts
         \<and> length thr = length (findall throughput_pattern raw)
         \<and> length ts = length (findall timestamp_pattern raw)
         \<and> parse_dict raw = Inr d
         \<and> (\<forall>i<length thr.
               \<exists>j. i \<le> j \<and> j < length thr \<and> ts ! j = ts ! i
                 \<and> (\<forall>l. j < l \<and> l < length thr \<longrightarrow> ts ! l \<noteq> ts ! i)
                 \<and> length (filter (\<lambda>kv. fst kv = ts ! i) d) = 1
                 \<and> dict_get d (ts ! i) = Some (thr ! j))"
proof -
  from throughputs_total [of raw] obtain thr where
    thr: "throughputs raw = Inr thr" "length thr = length (findall throughput_pattern raw)"
    by blast
  from timestamps_total [of raw] obtain ts where
    ts: "timestamps raw = Inr ts" "length ts = length (findall timestamp_pattern raw)"
    by blast
  have le: "length thr \<le> length ts"
    using assms thr(2) ts(2) by simp
  let ?d = "assign_pairs [] (zip ts thr)"
  have pd: "parse_dict raw = Inr ?d"
    using thr(1) ts(1) le by (rule parse_dict_ok)
  have each: "\<exists>j. i \<le> j \<and> j < length thr \<and> ts ! j = ts ! i
                 \<and> (\<forall>l. j < l \<and> l < length thr \<longrightarrow> ts ! l \<noteq> ts ! i)
                 \<and> length (filter (\<lambda>kv. fst kv = ts ! i) ?d) = 1
                 \<and> dict_get ?d (ts ! i) = Some (thr ! j)"
    if i: "i < length thr" for i
  proof -
    from last_occurrence [OF i, of "\<lambda>l. ts ! l"] obtain j where
      j: "i \<le> j" "j < length thr" "ts ! j = ts ! i"
        "\<forall>l. j < l \<and> l < length thr \<longrightarrow> ts ! l \<noteq> ts ! i"
      by blast
    from j(3,4) have last: "\<forall>l. j < l \<and> l < length thr \<longrightarrow> ts ! l \<noteq> ts ! j" by simp
    from last_pair_of_lists [OF thr(1) ts(1) le j(2) last] pd
    have "length (filter (\<lambda>kv. fst kv = ts ! j) ?d) = 1"
      "dict_get ?d (ts ! j) = Some (thr ! j)"
      by auto
    with j show ?thesis by (intro exI [of _ j]) simp
  qed
  show ?thesis
  proof (rule exI [of _ thr], rule exI [of _ ts], rule exI [of _ ?d], intro conjI)
    show "throughputs raw = Inr thr" by (rule thr(1))
    show "timestamps raw = Inr ts" by (rule ts(1))
    show "length thr = length (findall throughput_pattern raw)" by (rule thr(2))
    show "length ts = length (findall timestamp_pattern raw)" by (rule ts(2))
    show "parse_dict raw = Inr ?d" by (rule pd)
    show "\<forall>i<length thr.
               \<exists>j. i \<le> j \<and> j < length thr \<and> ts ! j = ts ! i
                 \<and> (\<forall>l. j < l \<and> l < length thr \<longrightarrow> ts ! l \<noteq> ts ! i)
                 \<and> length (filter (\<lambda>kv. fst kv = ts ! i) ?d) = 1
                 \<and> dict_get ?d (ts ! i) = Some (thr ! j)"
      using each by blast
  qed
qed

theorem duplicate_timestamp_last_wins_witness:
  "\<exists>d. parse_dict ''NETPERF_INTERIM_RESULT[0]=10.0 NETPERF_ENDING[0]=1.0 NETPERF_INTERIM_RESULT[1]=20.0 NETPERF_ENDING[1]=1.0'' = Inr d
       \<and> d = [(Finite 1, Finite 20)]
       \<and> length (filter (\<lambda>kv. fst kv = Finite 1) d) = 1
       \<and> dict_get d (Finite 1) = Some (Finite 20)"
proof -
  let ?raw = "''NETPERF_INTERIM_RESULT[0]=10.0 NETPERF_ENDING[0]=1.0 NETPERF_INTERIM_RESULT[1]=20.0 NETPERF_ENDING[1]=1.0''"
  have thr: "throughputs ?raw = Inr [Finite 10, Finite 20]"
    by (simp add: eval_defs)
  have ts: "timestamps ?raw = Inr [Finite 1, Finite 1]"
    by (simp add: eval_defs)
  have counts: "length (findall throughput_pattern ?raw) \<le> length (findall timestamp_pattern ?raw)"
    by (simp add: throughput_pattern_def timestamp_pattern_def is_digit_def)
  from duplicate_timestamp_last_wins [OF counts] obtain thr' ts' d where
    got: "throughputs ?raw = Inr thr'" "timestamps ?raw = Inr ts'" "parse_dict ?raw = Inr d"
    and each: "\<forall>i<length thr'.
               \<exists>j. i \<le> j \<and> j < length thr' \<and> ts' ! j = ts' ! i
                 \<and> (\<forall>l. j < l \<and> l < length thr' \<longrightarrow> ts' ! l \<noteq> ts' ! i)
                 \<and> length (filter (\<lambda>kv. fst kv = ts' ! i) d) = 1
                 \<and> dict_get d (ts' ! i) = Some (thr' ! j)"
    by blast
  from got thr ts have eq: "thr' = [Finite 10, Finite 20]" "ts' = [Finite 1, Finite 1]"
    by simp_all
  have first: "0 < length thr'" using eq by simp
  from each [rule_format, OF first] obtain j where
    j: "j < length thr'" "\<forall>l. j < l \<and> l < length thr' \<longrightarrow> ts' ! l \<noteq> ts' ! 0"
      "length (filter (\<lambda>kv. fst kv = ts' ! 0) d) = 1"
      "dict_get d (ts' ! 0) = Some (thr' ! j)"
    by blast
  have "j \<noteq> 0"
  proof
    assume "j = 0"
    with j(2) [rule_format, of 1] eq show False by simp
  qed
  with j(1) eq have "j = 1" by simp
  with j(3,4) eq have once: "length (filter (\<lambda>kv. fst kv = Finite 1) d) = 1"
    and val: "dict_get d (Finite 1) = Some (Finite 20)"
    by simp_all
  have "parse_dict ?raw = Inr [(Finite 1, Finite 20)]"
    using thr ts by (simp add: parse_dict_def stats_loop.simps)
  with got(3) have dv: "d = [(Finite 1, Finite 20)]" by simp
  show ?thesis
  proof (rule exI [of _ d], intro conjI)
    show "parse_dict ?raw = Inr d" by (rule got(3))
    show "d = [(Finite 1, Finite 20)]" by (rule dv)
    show "length (filter (\<lambda>kv. fst kv = Finite 1) d) = 1" by (rule once)
    show "dict_get d (Finite 1) = Some (Finite 20)" by (rule val)
  qed
qed

section \<open>Parsing: texts that do not match\<close>

lemma run_and_parse_log:
  "run_and_parse env cmd ns w =
     (case env (str_split cmd) of
        LaunchError e \<Rightarrow> (Inl e, w @ [Popen (str_split cmd)])
      | Undecodable \<Rightarrow> (Inl UnicodeDecodeError, w @ [Popen (str_split cmd), Communicate])
      | Output raw \<Rightarrow> parse_stats raw ns (w @ [Popen (str_split cmd), Communicate]))"
  by (simp add: run_and_parse_def run_test_commands_def split: child.splits)

lemma run_netperf_after_cmd:
  assumes "netperf_cmd ns ip rt kw = Inr cmd" "0 \<le> st" "st \<le> max_sleep_seconds"
  shows "run_netperf env ns ip st rt kw w =
           run_and_parse env cmd ns (w @ (if 0 < st then [Sleep st] else []))"
  using assms by (simp add: run_netperf_def time_sleep_def max_sleep_seconds_def)

text \<open>
  C6. When neither pattern matches anywhere in the output (the empty output included, see
  the witness), \<open>parse_stats\<close> raises nothing: the mapping is empty and it is passed to
  \<open>NetperfResults.add_result\<close> for the namespace between acquiring and releasing the lock.
  A run whose command was built, whose start delay \<open>time.sleep\<close> accepts and whose child
  printed such an output therefore completes with that empty contribution stored.
\<close>

theorem no_markers_empty_contribution:
  assumes "findall throughput_pattern raw = []" "findall timestamp_pattern raw = []"
  shows "parse_dict raw = Inr []
       \<and> parse_stats raw ns w = (Inr (), w @ [LockAcquire, AddResult ns [], LockRelease])
       \<and> (netperf_cmd ns ip rt kw = Inr cmd \<longrightarrow> env (str_split cmd) = Output raw \<longrightarrow>
            0 \<le> st \<longrightarrow> st \<le> max_sleep_seconds \<longrightarrow>
            run_netperf env ns ip st rt kw w =
              (Inr (), w @ (if st = 0 then [] else [Sleep st])
                         @ [Popen (str_split cmd), Communicate,
                            LockAcquire, AddResult ns [], LockRelease]))"
proof -
  have pd: "parse_dict raw = Inr []"
    using assms by (simp add: parse_dict_def throughputs_def timestamps_def stats_loop.simps)
  then have ps: "parse_stats raw ns w' = (Inr (), w' @ [LockAcquire, AddResult ns [], LockRelease])"
    for w'
    by (rule parse_stats_of_dict)
  have "run_netperf env ns ip st rt kw w =
              (Inr (), w @ (if st = 0 then [] else [Sleep st])
                         @ [Popen (str_split cmd), Communicate,
                            LockAcquire, AddResult ns [], LockRelease])"
    if "netperf_cmd ns ip rt kw = Inr cmd" "env (str_split cmd) = Output raw" "0 \<le> st"
      "st \<le> max_sleep_seconds"
    using that by (simp add: run_netperf_after_cmd run_and_parse_log ps)
  with pd ps show ?thesis by simp
qed

theorem no_markers_empty_contribution_witness:
  "parse_dict [] = Inr []
   \<and> parse_stats [] ''ns1'' [] = (Inr (), [LockAcquire, AddResult ''ns1'' [], LockRelease])
   \<and> run_netperf quiet_child ''ns1'' ''10.0.0.2'' 0 10 [''testname'' \<mapsto> ''UDP_STREAM''] []
       = (Inr (), [Popen [''ip'', ''netns'', ''exec'', ''ns1'', ''netperf'', ''-P'', ''0'',
                          ''-4'', ''-t'', ''UDP_STREAM'', ''-F'', ''/dev/urandom'', ''-l'',
                          ''10'', ''-D'', ''-0.2'', ''-H'', ''10.0.0.2'', ''--'', ''-R'', ''1'',
                          ''-k'', ''THROUGHPUT''],
                   Communicate, LockAcquire, AddResult ''ns1'' [], LockRelease])"
proof -
  have cmd: "netperf_cmd ''ns1'' ''10.0.0.2'' 10 [''testname'' \<mapsto> ''UDP_STREAM'']
     = Inr ''ip netns exec ns1 netperf -P 0 -4 -t UDP_STREAM -F /dev/urandom -l 10 -D -0.2 -H 10.0.0.2 -- -R 1 -k THROUGHPUT''"
    by (simp add: cmd_defs str_int_def digit_char_def)
  have f: "findall throughput_pattern [] = []" "findall timestamp_pattern [] = []"
    by (simp_all add: throughput_pattern_def timestamp_pattern_def)
  from no_markers_empty_contribution [OF f, of "''ns1''" "[]" "''10.0.0.2''" 10
      "[''testname'' \<mapsto> ''UDP_STREAM'']" _ quiet_child 0] cmd
  show ?thesis by (simp add: str_split_def is_space_def quiet_child_def max_sleep_seconds_def)
qed








section \<open>Order of the effects of one run\<close>




text \<open>
  Within one run the store is only touched between acquiring and releasing the lock. How
  several runs interleave depends on the lock object and the scheduler of the caller, which
  are not part of this model.
\<close>

lemma parse_stats_store_inside_lock:
  "(\<exists>e. parse_stats raw ns w = (Inl e, w))
   \<or> (\<exists>d. parse_stats raw ns w = (Inr (), w @ [LockAcquire, AddResult ns d, LockRelease]))"
  by (cases "parse_dict raw") (auto simp: parse_stats_def)

end
